theory Spec2Isabelle
  imports Main
begin

section \<open>Python values: exceptions and list indexing\<close>

text \<open>
  The engine of \<^verbatim>\<open>game_logic.py\<close> works on \<^verbatim>\<open>List[List[Optional[str]]]\<close> with
  \<^verbatim>\<open>int\<close> coordinates. A Python exception is the left summand of the result; the only
  exceptions the engine can raise are the \<^verbatim>\<open>IndexError\<close> of a list subscript and the
  \<^verbatim>\<open>Exception("No moves left")\<close> of the AI selector.
\<close>

datatype py_error = IndexError | Exception string

definition rbind :: "py_error + 'a \<Rightarrow> ('a \<Rightarrow> py_error + 'b) \<Rightarrow> py_error + 'b" where
  "rbind m f = (case m of Inl e \<Rightarrow> Inl e | Inr v \<Rightarrow> f v)"

text \<open>
  A subscript \<^verbatim>\<open>xs[i]\<close>: a negative index counts from the end, and an index outside
  \<^verbatim>\<open>-len(xs) .. len(xs)-1\<close> raises \<^verbatim>\<open>IndexError\<close>, for a read and for a store alike.
\<close>

definition py_index :: "nat \<Rightarrow> int \<Rightarrow> py_error + nat" where
  "py_index n i =
     (let j = (if i < 0 then i + int n else i)
      in if 0 \<le> j \<and> j < int n then Inr (nat j) else Inl IndexError)"

definition py_get :: "'a list \<Rightarrow> int \<Rightarrow> py_error + 'a" where
  "py_get xs i = rbind (py_index (length xs) i) (\<lambda>j. Inr (xs ! j))"

definition py_set :: "'a list \<Rightarrow> int \<Rightarrow> 'a \<Rightarrow> py_error + 'a list" where
  "py_set xs i v = rbind (py_index (length xs) i) (\<lambda>j. Inr (xs[j := v]))"

section \<open>The board\<close>

type_synonym cell = "string option"
type_synonym board = "cell list list"

text \<open>\<^verbatim>\<open>range(3)\<close>, and the cells in the order of the nested loops over it.\<close>

definition range3 :: "int list" where
  "range3 = [0, 1, 2]"

definition cells3 :: "(int \<times> int) list" where
  "cells3 = concat (map (\<lambda>r. map (\<lambda>c. (r, c)) range3) range3)"

definition empty_board :: board where
  "empty_board = map (\<lambda>_. map (\<lambda>_. None) range3) range3"

text \<open>\<^verbatim>\<open>board[r][c]\<close> as an expression, and \<^verbatim>\<open>board[r][c] = v\<close> as a statement.\<close>

definition get_cell :: "board \<Rightarrow> int \<Rightarrow> int \<Rightarrow> py_error + cell" where
  "get_cell board r c = rbind (py_get board r) (\<lambda>row. py_get row c)"

definition set_cell :: "board \<Rightarrow> int \<Rightarrow> int \<Rightarrow> cell \<Rightarrow> py_error + board" where
  "set_cell board r c v =
     rbind (py_index (length board) r) (\<lambda>j.
     rbind (py_set (board ! j) c v) (\<lambda>row'.
     Inr (board[j := row'])))"

text \<open>\<^verbatim>\<open>r.copy()\<close> yields a list with the same elements.\<close>

definition copy :: "'a list \<Rightarrow> 'a list" where
  "copy r = r"

section \<open>The engine\<close>

definition validate_move :: "board \<Rightarrow> int \<Rightarrow> int \<Rightarrow> py_error + bool" where
  "validate_move board row col =
     (if (0 \<le> row \<and> row < 3) \<and> (0 \<le> col \<and> col < 3)
      then rbind (get_cell board row col) (\<lambda>v. Inr (v = None))
      else Inr False)"

definition apply_move :: "board \<Rightarrow> int \<Rightarrow> int \<Rightarrow> string \<Rightarrow> py_error + board" where
  "apply_move board row col symbol =
     (let new_board = map copy board
      in set_cell new_board row col (Some symbol))"

text \<open>
  \<^verbatim>\<open>check_winner\<close> first builds the list of lines: for each \<^verbatim>\<open>i\<close> the row \<^verbatim>\<open>board[i]\<close>
  and then the column \<^verbatim>\<open>i\<close>, and the two diagonals last. It then returns the first cell of
  the first line whose three cells are one non-\<^verbatim>\<open>None\<close> value.
\<close>

definition row_and_col :: "board \<Rightarrow> int \<Rightarrow> py_error + cell list list" where
  "row_and_col board i =
     rbind (py_get board i) (\<lambda>row.
     rbind (get_cell board 0 i) (\<lambda>a.
     rbind (get_cell board 1 i) (\<lambda>b.
     rbind (get_cell board 2 i) (\<lambda>c.
     Inr [row, [a, b, c]]))))"

fun rows_and_cols :: "board \<Rightarrow> int list \<Rightarrow> py_error + cell list list" where
  "rows_and_cols board [] = Inr []"
| "rows_and_cols board (i # rest) =
     rbind (row_and_col board i) (\<lambda>ls.
     rbind (rows_and_cols board rest) (\<lambda>more.
     Inr (ls @ more)))"

definition diagonals :: "board \<Rightarrow> py_error + cell list list" where
  "diagonals board =
     rbind (get_cell board 0 0) (\<lambda>a.
     rbind (get_cell board 1 1) (\<lambda>b.
     rbind (get_cell board 2 2) (\<lambda>c.
     rbind (get_cell board 0 2) (\<lambda>d.
     rbind (get_cell board 1 1) (\<lambda>e.
     rbind (get_cell board 2 0) (\<lambda>f.
     Inr [[a, b, c], [d, e, f]]))))))"

fun scan_lines :: "cell list list \<Rightarrow> py_error + cell" where
  "scan_lines [] = Inr None"
| "scan_lines (line # rest) =
     rbind (py_get line 0) (\<lambda>a.
       if a \<noteq> None then
         rbind (py_get line 1) (\<lambda>b.
           if a = b then
             rbind (py_get line 2) (\<lambda>c.
               if b = c then Inr a else scan_lines rest)
           else scan_lines rest)
       else scan_lines rest)"

definition check_winner :: "board \<Rightarrow> py_error + cell" where
  "check_winner board =
     rbind (rows_and_cols board range3) (\<lambda>rcs.
     rbind (diagonals board) (\<lambda>ds.
     scan_lines (rcs @ ds)))"

definition is_board_full :: "board \<Rightarrow> bool" where
  "is_board_full board = list_all (\<lambda>row. list_all (\<lambda>cell. cell \<noteq> None) row) board"

definition next_turn :: "string \<Rightarrow> string" where
  "next_turn current = (if current = ''X'' then ''O'' else ''X'')"

text \<open>
  The two search loops of \<^verbatim>\<open>best_ai_move\<close> have the same body, with \<^verbatim>\<open>ai_symbol\<close> in the
  first and \<^verbatim>\<open>user_symbol\<close> in the second: on an empty cell, copy the rows, store the
  symbol, and return the cell when \<^verbatim>\<open>check_winner\<close> of the copy is that symbol.
  \<open>None\<close> stands for a loop that ran to its end.
\<close>

fun try_cells :: "board \<Rightarrow> string \<Rightarrow> (int \<times> int) list \<Rightarrow> py_error + (int \<times> int) option" where
  "try_cells board symbol [] = Inr None"
| "try_cells board symbol ((r, c) # rest) =
     rbind (get_cell board r c) (\<lambda>v.
       if v = None then
         rbind (set_cell (map copy board) r c (Some symbol)) (\<lambda>temp.
         rbind (check_winner temp) (\<lambda>w.
           if w = Some symbol then Inr (Some (r, c)) else try_cells board symbol rest))
       else try_cells board symbol rest)"

fun empty_cells :: "board \<Rightarrow> (int \<times> int) list \<Rightarrow> py_error + (int \<times> int) list" where
  "empty_cells board [] = Inr []"
| "empty_cells board ((r, c) # rest) =
     rbind (get_cell board r c) (\<lambda>v.
     rbind (empty_cells board rest) (\<lambda>more.
     Inr (if v = None then (r, c) # more else more)))"

text \<open>
  \<^verbatim>\<open>random.choice(xs)\<close> on a non-empty list: the random source is the parameter \<open>k\<close>.
  Every draw yields an element of \<open>xs\<close>, and every element is the outcome of some draw.
\<close>

definition choice :: "nat \<Rightarrow> 'a list \<Rightarrow> 'a" where
  "choice k xs = xs ! (k mod length xs)"

definition best_ai_move :: "nat \<Rightarrow> board \<Rightarrow> string \<Rightarrow> string \<Rightarrow> py_error + (int \<times> int)" where
  "best_ai_move k board ai_symbol user_symbol =
     rbind (try_cells board ai_symbol cells3) (\<lambda>win.
       case win of
         Some rc \<Rightarrow> Inr rc
       | None \<Rightarrow>
           rbind (try_cells board user_symbol cells3) (\<lambda>block.
             case block of
               Some rc \<Rightarrow> Inr rc
             | None \<Rightarrow>
                 rbind (empty_cells board cells3) (\<lambda>empty.
                   if empty \<noteq> [] then Inr (choice k empty)
                   else Inl (Exception ''No moves left''))))"

section \<open>Rebuilding a game from its move list\<close>

text \<open>
  \<^verbatim>\<open>make_move\<close> in \<^verbatim>\<open>main.py\<close> rebuilds the board and the turn from the stored moves:
  it starts from the empty board and \<^verbatim>\<open>"X"\<close>, and for each stored move applies it and
  passes the turn on. A stored move is a dictionary with the keys \<^verbatim>\<open>row\<close>, \<^verbatim>\<open>col\<close> and
  \<^verbatim>\<open>player\<close>.
\<close>

record move =
  m_row :: int
  m_col :: int
  m_player :: string

fun replay :: "board \<Rightarrow> string \<Rightarrow> move list \<Rightarrow> py_error + (board \<times> string)" where
  "replay board turn [] = Inr (board, turn)"
| "replay board turn (m # rest) =
     rbind (apply_move board (m_row m) (m_col m) (m_player m)) (\<lambda>board'.
     replay board' (next_turn turn) rest)"

definition rebuild :: "move list \<Rightarrow> py_error + (board \<times> string)" where
  "rebuild moves = replay empty_board ''X'' moves"

section \<open>Row objects in a store\<close>

text \<open>
  A Python board is a list of references to row objects, and \<^verbatim>\<open>new_board[row][col] = symbol\<close>
  mutates one row object in place. To state that \<^verbatim>\<open>apply_move\<close> leaves its argument alone,
  the rows live in a store: \<open>objs\<close> gives the contents of each row object and every
  address below \<open>next_addr\<close> is allocated. A board is then the list of the addresses of
  its rows. \<^verbatim>\<open>r.copy()\<close> allocates a new object with the same contents.
\<close>

record heap =
  objs :: "nat \<Rightarrow> cell list"
  next_addr :: nat

definition alloc :: "heap \<Rightarrow> cell list \<Rightarrow> nat \<times> heap" where
  "alloc h v =
     (next_addr h, h\<lparr>objs := (objs h)(next_addr h := v), next_addr := Suc (next_addr h)\<rparr>)"

fun copy_rows :: "heap \<Rightarrow> nat list \<Rightarrow> nat list \<times> heap" where
  "copy_rows h [] = ([], h)"
| "copy_rows h (a # rest) =
     (case alloc h (copy (objs h a)) of (a', h1) \<Rightarrow>
      case copy_rows h1 rest of (rest', h2) \<Rightarrow> (a' # rest', h2))"

definition read_board :: "heap \<Rightarrow> nat list \<Rightarrow> board" where
  "read_board h refs = map (objs h) refs"

definition apply_move_heap ::
  "heap \<Rightarrow> nat list \<Rightarrow> int \<Rightarrow> int \<Rightarrow> string \<Rightarrow> py_error + (nat list \<times> heap)" where
  "apply_move_heap h board row col symbol =
     (case copy_rows h board of (new_board, h1) \<Rightarrow>
      rbind (py_get new_board row) (\<lambda>a.
      rbind (py_set (objs h1 a) col (Some symbol)) (\<lambda>contents.
      Inr (new_board, h1\<lparr>objs := (objs h1)(a := contents)\<rparr>))))"

section \<open>Vocabulary of the properties\<close>

text \<open>A board as the data model has it: three rows of three cells.\<close>

definition wf_board :: "board \<Rightarrow> bool" where
  "wf_board board \<longleftrightarrow> length board = 3 \<and> list_all (\<lambda>row. length row = 3) board"

text \<open>Coordinates within the grid.\<close>

definition in_grid :: "int \<Rightarrow> int \<Rightarrow> bool" where
  "in_grid r c \<longleftrightarrow> 0 \<le> r \<and> r < 3 \<and> 0 \<le> c \<and> c < 3"

text \<open>The cell of a well-formed board at coordinates within the grid.\<close>

definition at :: "board \<Rightarrow> int \<Rightarrow> int \<Rightarrow> cell" where
  "at board r c = board ! nat r ! nat c"

text \<open>A line is complete when its three cells hold one symbol.\<close>

definition complete :: "cell list \<Rightarrow> bool" where
  "complete l \<longleftrightarrow> (case l of [a, b, c] \<Rightarrow> a \<noteq> None \<and> a = b \<and> b = c | _ \<Rightarrow> False)"

text \<open>
  The eight lines in the order the specification gives for the scan: the rows from top
  to bottom, the columns from left to right, the main diagonal and the anti-diagonal.
\<close>

definition spec_lines :: "board \<Rightarrow> cell list list" where
  "spec_lines b =
     [[at b 0 0, at b 0 1, at b 0 2],
      [at b 1 0, at b 1 1, at b 1 2],
      [at b 2 0, at b 2 1, at b 2 2],
      [at b 0 0, at b 1 0, at b 2 0],
      [at b 0 1, at b 1 1, at b 2 1],
      [at b 0 2, at b 1 2, at b 2 2],
      [at b 0 0, at b 1 1, at b 2 2],
      [at b 0 2, at b 1 1, at b 2 0]]"

text \<open>
  Placing \<open>s\<close> on the empty cell \<open>(r, c)\<close> makes \<^verbatim>\<open>check_winner\<close> answer \<open>s\<close>: an immediate
  win for \<open>s\<close> (a winning cell for the AI's symbol, a blocking cell for the opponent's).
\<close>

definition wins_at :: "board \<Rightarrow> string \<Rightarrow> int \<Rightarrow> int \<Rightarrow> bool" where
  "wins_at board s r c \<longleftrightarrow>
     in_grid r c \<and> get_cell board r c = Inr None
     \<and> rbind (apply_move board r c s) check_winner = Inr (Some s)"

text \<open>Row-major order on coordinates.\<close>

definition row_major_le :: "int \<times> int \<Rightarrow> int \<times> int \<Rightarrow> bool" where
  "row_major_le p q \<longleftrightarrow> fst p < fst q \<or> (fst p = fst q \<and> snd p \<le> snd q)"

text \<open>The symbol of the first complete line of a list of lines, if there is one.\<close>

definition first_complete :: "cell list list \<Rightarrow> cell" where
  "first_complete ls = (case find complete ls of None \<Rightarrow> None | Some l \<Rightarrow> hd l)"

text \<open>The board with \<open>v\<close> stored at \<open>(r, c)\<close>, for coordinates within the grid.\<close>

definition put :: "board \<Rightarrow> int \<Rightarrow> int \<Rightarrow> cell \<Rightarrow> board" where
  "put b r c v = b[nat r := (b ! nat r)[nat c := v]]"

section \<open>Example positions\<close>

text \<open>
  The position of the specification's third end-to-end scenario: \<^verbatim>\<open>X X -\<close> over
  \<^verbatim>\<open>O O -\<close> over an empty row.
\<close>

definition board_scenario :: board where
  "board_scenario = [[Some ''X'', Some ''X'', None], [Some ''O'', Some ''O'', None], [None, None, None]]"

text \<open>The full board of the specification's draw scenario.\<close>

definition board_draw :: board where
  "board_draw = [[Some ''X'', Some ''O'', Some ''X''], [Some ''X'', Some ''O'', Some ''O''],
                 [Some ''O'', Some ''X'', Some ''X'']]"

text \<open>Row 1 and column 0 are both complete: the code meets the column first, the
  specification's order the row.\<close>

definition board_two_lines :: board where
  "board_two_lines = [[Some ''X'', Some ''O'', None], [Some ''X'', Some ''X'', Some ''X''],
                      [Some ''X'', Some ''O'', Some ''O'']]"

text \<open>The opponent \<^verbatim>\<open>X\<close> threatens row 0 and \<^verbatim>\<open>O\<close> has no immediate win.\<close>

definition board_threat :: board where
  "board_threat = [[Some ''X'', Some ''X'', None], [Some ''O'', None, None], [None, None, None]]"

text \<open>A stored move list of length three.\<close>

definition moves3 :: "move list" where
  "moves3 = [\<lparr>m_row = 0, m_col = 0, m_player = ''X''\<rparr>, \<lparr>m_row = 1, m_col = 1, m_player = ''O''\<rparr>,
             \<lparr>m_row = 0, m_col = 1, m_player = ''X''\<rparr>]"

text \<open>A store holding the three rows of the scenario position at the addresses 0, 1, 2.\<close>

definition heap0 :: heap where
  "heap0 = \<lparr>objs = (\<lambda>a. if a = 0 then [Some ''X'', Some ''X'', None]
                       else if a = 1 then [Some ''O'', Some ''O'', None]
                       else if a = 2 then [None, None, None] else []),
            next_addr = 3\<rparr>"

section \<open>Evaluating the engine on a well-formed board\<close>

lemma rbind_Inr [simp]: "rbind (Inr v) f = f v" by (simp add: rbind_def)
lemma rbind_Inl [simp]: "rbind (Inl e) f = Inl e" by (simp add: rbind_def)

lemma py_index_nonneg: "0 \<le> i \<Longrightarrow> i < int n \<Longrightarrow> py_index n i = Inr (nat i)"
  by (simp add: py_index_def)

lemma py_index_neg: "i < 0 \<Longrightarrow> - int n \<le> i \<Longrightarrow> py_index n i = Inr (nat (i + int n))"
  by (simp add: py_index_def)

lemma wf_boardE:
  assumes "wf_board b"
  obtains a0 a1 a2 a3 a4 a5 a6 a7 a8 where "b = [[a0, a1, a2], [a3, a4, a5], [a6, a7, a8]]"
proof -
  from assms obtain r0 r1 r2 where b: "b = [r0, r1, r2]"
    by (auto simp: wf_board_def length_Suc_conv numeral_3_eq_3)
  with assms have "length r0 = 3" "length r1 = 3" "length r2 = 3"
    by (simp_all add: wf_board_def)
  then obtain a0 a1 a2 a3 a4 a5 a6 a7 a8 where
    "r0 = [a0, a1, a2]" "r1 = [a3, a4, a5]" "r2 = [a6, a7, a8]"
    by (auto simp: length_Suc_conv numeral_3_eq_3)
  with b that show thesis by blast
qed

lemma py_get3 [simp]:
  "py_get [x, y, z] 0 = Inr x" "py_get [x, y, z] 1 = Inr y" "py_get [x, y, z] 2 = Inr z"
  by (simp_all add: py_get_def py_index_def)

lemma get_cell_wf:
  assumes "wf_board b" "in_grid r c"
  shows "get_cell b r c = Inr (at b r c)"
proof -
  from assms have "length b = 3" "length (b ! nat r) = 3"
    by (auto simp: wf_board_def in_grid_def list_all_length)
  with assms(2) show ?thesis
    by (simp add: get_cell_def py_get_def py_index_nonneg in_grid_def at_def)
qed

lemma check_winner_explicit:
  "check_winner [[a0, a1, a2], [a3, a4, a5], [a6, a7, a8]] =
     scan_lines [[a0, a1, a2], [a0, a3, a6], [a3, a4, a5], [a1, a4, a7], [a6, a7, a8], [a2, a5, a8],
                 [a0, a4, a8], [a2, a4, a6]]"
  by (simp add: check_winner_def range3_def row_and_col_def diagonals_def get_cell_def)

lemma complete3 [simp]: "complete [a, b, c] \<longleftrightarrow> a \<noteq> None \<and> a = b \<and> b = c"
  by (simp add: complete_def)

lemma scan_lines_first_complete:
  "list_all (\<lambda>l. length l = 3) ls \<Longrightarrow> scan_lines ls = Inr (first_complete ls)"
proof (induction ls)
  case Nil
  show ?case by (simp add: first_complete_def)
next
  case (Cons l ls)
  then obtain a b c where l: "l = [a, b, c]"
    by (auto simp: length_Suc_conv numeral_3_eq_3)
  from Cons have "scan_lines ls = Inr (first_complete ls)" by simp
  then show ?case by (auto simp: l first_complete_def)
qed

lemma first_complete_Cons:
  "first_complete (l # ls) = (if complete l then hd l else first_complete ls)"
  by (simp add: first_complete_def)

lemma code_order_is_spec_order:
  "first_complete [[a0, a1, a2], [a0, a3, a6], [a3, a4, a5], [a1, a4, a7], [a6, a7, a8], [a2, a5, a8],
                 [a0, a4, a8], [a2, a4, a6]]
   = first_complete [[a0, a1, a2], [a3, a4, a5], [a6, a7, a8], [a0, a3, a6], [a1, a4, a7], [a2, a5, a8],
                 [a0, a4, a8], [a2, a4, a6]]"
proof (cases "complete [a0, a1, a2]")
  case True
  then show ?thesis by (simp only: first_complete_Cons if_True)
next
  case r0: False
  show ?thesis
  proof (cases "complete [a0, a3, a6]")
    case c0: True
    then have eq: "a3 = a0" "a6 = a0" by simp_all
    show ?thesis
    proof (cases "complete [a3, a4, a5]")
      case r1: True
      show ?thesis
        by (simp only: first_complete_Cons r0 c0 r1 if_True if_False list.sel) (simp only: eq)
    next
      case r1: False
      show ?thesis
      proof (cases "complete [a6, a7, a8]")
        case r2: True
        show ?thesis
          by (simp only: first_complete_Cons r0 c0 r1 r2 if_True if_False list.sel) (simp only: eq)
      next
        case r2: False
        show ?thesis
          by (simp only: first_complete_Cons r0 c0 r1 r2 if_True if_False list.sel)
      qed
    qed
  next
    case c0: False
    show ?thesis
    proof (cases "complete [a3, a4, a5]")
      case r1: True
      show ?thesis
        by (simp only: first_complete_Cons r0 c0 r1 if_True if_False list.sel)
    next
      case r1: False
      show ?thesis
      proof (cases "complete [a1, a4, a7]")
        case c1: True
        then have eq: "a7 = a1" by simp
        show ?thesis
        proof (cases "complete [a6, a7, a8]")
          case r2: True
          then have eq6: "a6 = a1" using eq by simp
          show ?thesis
            by (simp only: first_complete_Cons r0 c0 r1 c1 r2 if_True if_False list.sel)
               (simp only: eq6)
        next
          case r2: False
          show ?thesis
            by (simp only: first_complete_Cons r0 c0 r1 c1 r2 if_True if_False list.sel)
        qed
      next
        case c1: False
        show ?thesis
          by (simp only: first_complete_Cons r0 c0 r1 c1 if_True if_False)
      qed
    qed
  qed
qed

lemma complete_hd: "complete l \<and> hd l = Some s \<longleftrightarrow> l = [Some s, Some s, Some s]"
  by (auto simp: complete_def split: list.splits)

lemma complete_hd_not_None: "complete l \<Longrightarrow> hd l \<noteq> None"
  by (auto simp: complete_def split: list.splits)

lemma first_complete_None_iff:
  "first_complete ls = None \<longleftrightarrow> (\<forall>i<length ls. \<not> complete (ls ! i))"
proof (induction ls)
  case Nil
  show ?case by (simp add: first_complete_def)
next
  case (Cons l ls)
  then show ?case
    by (auto simp: first_complete_Cons complete_hd_not_None All_less_Suc2 simp del: complete3)
qed

lemma first_complete_Some_iff:
  "first_complete ls = Some s \<longleftrightarrow>
     (\<exists>i<length ls. ls ! i = [Some s, Some s, Some s] \<and> (\<forall>j<i. \<not> complete (ls ! j)))"
proof -
  have "first_complete ls = Some s \<longleftrightarrow> (\<exists>l. find complete ls = Some l \<and> hd l = Some s)"
    by (auto simp: first_complete_def split: option.splits)
  also have "\<dots> \<longleftrightarrow> (\<exists>i<length ls. (complete (ls ! i) \<and> hd (ls ! i) = Some s)
                        \<and> (\<forall>j<i. \<not> complete (ls ! j)))"
    by (auto simp: find_Some_iff)
  finally show ?thesis by (simp only: complete_hd)
qed

lemma check_winner_wf:
  assumes "wf_board b"
  shows "check_winner b = Inr (first_complete (spec_lines b))"
proof -
  from assms obtain a0 a1 a2 a3 a4 a5 a6 a7 a8
    where b: "b = [[a0, a1, a2], [a3, a4, a5], [a6, a7, a8]]"
    by (rule wf_boardE)
  have cw: "check_winner b =
      Inr (first_complete [[a0, a1, a2], [a0, a3, a6], [a3, a4, a5], [a1, a4, a7],
                           [a6, a7, a8], [a2, a5, a8], [a0, a4, a8], [a2, a4, a6]])"
    unfolding b check_winner_explicit by (rule scan_lines_first_complete) simp
  have sl: "spec_lines b = [[a0, a1, a2], [a3, a4, a5], [a6, a7, a8], [a0, a3, a6],
                             [a1, a4, a7], [a2, a5, a8], [a0, a4, a8], [a2, a4, a6]]"
    by (simp add: b spec_lines_def at_def)
  show ?thesis
    unfolding cw sl by (rule arg_cong [OF code_order_is_spec_order])
qed


lemma map_copy [simp]: "map copy b = b"
  by (simp add: copy_def map_idI)

lemma wf_board_nth: "wf_board b \<Longrightarrow> i < 3 \<Longrightarrow> length (b ! i) = 3"
  by (simp add: wf_board_def list_all_length)

lemma set_cell_wf:
  assumes "wf_board b" "in_grid r c"
  shows "set_cell b r c v = Inr (put b r c v)"
proof -
  from assms have "length b = 3" "length (b ! nat r) = 3"
    by (auto simp: wf_board_def in_grid_def list_all_length)
  with assms(2) show ?thesis
    by (simp add: set_cell_def py_set_def py_index_nonneg in_grid_def put_def)
qed

lemma wf_board_put: "wf_board b \<Longrightarrow> wf_board (put b r c v)"
  by (cases "nat r < 3") (auto simp: wf_board_def put_def list_all_length nth_list_update)

lemma apply_move_wf:
  "wf_board b \<Longrightarrow> in_grid r c \<Longrightarrow> apply_move b r c s = Inr (put b r c (Some s))"
  by (simp add: apply_move_def set_cell_wf)

lemma wins_at_wf:
  assumes "wf_board b" "in_grid r c"
  shows "wins_at b s r c \<longleftrightarrow>
     at b r c = None \<and> first_complete (spec_lines (put b r c (Some s))) = Some s"
  using assms
  by (simp add: wins_at_def get_cell_wf apply_move_wf check_winner_wf wf_board_put)

lemma try_cells_find:
  assumes "wf_board b"
  shows "list_all (\<lambda>(r, c). in_grid r c) cs \<Longrightarrow>
     try_cells b s cs = Inr (find (\<lambda>(r, c). wins_at b s r c) cs)"
proof (induction cs)
  case Nil
  show ?case by simp
next
  case (Cons p cs)
  obtain r c where p: "p = (r, c)" by (cases p)
  from Cons.prems have g: "in_grid r c" by (simp add: p)
  from Cons have IH: "try_cells b s cs = Inr (find (\<lambda>(r, c). wins_at b s r c) cs)"
    by simp
  show ?case
    by (simp add: p IH get_cell_wf [OF assms g] set_cell_wf [OF assms g]
          check_winner_wf [OF wf_board_put [OF assms]] wins_at_wf [OF assms g])
qed

lemma empty_cells_filter:
  assumes "wf_board b"
  shows "list_all (\<lambda>(r, c). in_grid r c) cs \<Longrightarrow>
     empty_cells b cs = Inr (filter (\<lambda>(r, c). at b r c = None) cs)"
proof (induction cs)
  case Nil
  show ?case by simp
next
  case (Cons p cs)
  obtain r c where p: "p = (r, c)" by (cases p)
  from Cons.prems have g: "in_grid r c" by (simp add: p)
  from Cons have IH: "empty_cells b cs = Inr (filter (\<lambda>(r, c). at b r c = None) cs)"
    by simp
  show ?case
    by (simp add: p IH get_cell_wf [OF assms g])
qed

lemma cells3_explicit:
  "cells3 = [(0,0), (0,1), (0,2), (1,0), (1,1), (1,2), (2,0), (2,1), (2,2)]"
  by (simp add: cells3_def range3_def)

lemma cells3_in_grid: "list_all (\<lambda>(r, c). in_grid r c) cells3"
  by (simp add: cells3_explicit in_grid_def)

lemma in_grid_cells3: "in_grid r c \<longleftrightarrow> (r, c) \<in> set cells3"
proof -
  have "0 \<le> r \<and> r < 3 \<longleftrightarrow> r = 0 \<or> r = 1 \<or> r = 2" for r :: int by arith
  then show ?thesis by (auto simp: cells3_explicit in_grid_def)
qed

lemma cells3_sorted: "sorted_wrt row_major_le cells3"
  by (simp add: cells3_explicit row_major_le_def)

lemma find_sorted_least:
  assumes "sorted_wrt R xs" "find P xs = Some x" "y \<in> set xs" "P y" "\<And>z. R z z"
  shows "R x y"
  using assms(1-4)
proof (induction xs)
  case Nil
  then show ?case by simp
next
  case (Cons z zs)
  show ?case
  proof (cases "P z")
    case True
    with Cons.prems have "x = z" by simp
    with Cons.prems assms(5) show ?thesis by auto
  next
    case False
    with Cons.prems have "find P zs = Some x" "y \<in> set zs" "sorted_wrt R zs" by auto
    then show ?thesis using Cons.IH Cons.prems(4) by blast
  qed
qed

lemma best_ai_move_wf:
  assumes "wf_board b"
  shows "best_ai_move k b ai us =
     (case find (\<lambda>(r, c). wins_at b ai r c) cells3 of
        Some rc \<Rightarrow> Inr rc
      | None \<Rightarrow>
         (case find (\<lambda>(r, c). wins_at b us r c) cells3 of
            Some rc \<Rightarrow> Inr rc
          | None \<Rightarrow>
             (if filter (\<lambda>(r, c). at b r c = None) cells3 \<noteq> []
              then Inr (choice k (filter (\<lambda>(r, c). at b r c = None) cells3))
              else Inl (Exception ''No moves left''))))"
  by (simp add: best_ai_move_def try_cells_find [OF assms cells3_in_grid]
        empty_cells_filter [OF assms cells3_in_grid] split: option.splits)

lemma first_win_cell:
  assumes "find (\<lambda>(r, c). wins_at b s r c) cells3 = Some (r0, c0)"
  shows "wins_at b s r0 c0 \<and> (\<forall>r c. wins_at b s r c \<longrightarrow> row_major_le (r0, c0) (r, c))"
proof (intro conjI allI impI)
  from assms show "wins_at b s r0 c0" by (auto simp: find_Some_iff)
next
  fix r c
  assume w: "wins_at b s r c"
  then have "(r, c) \<in> set cells3" by (simp add: wins_at_def in_grid_cells3)
  with cells3_sorted assms show "row_major_le (r0, c0) (r, c)"
    by (rule find_sorted_least) (use w in \<open>simp_all add: row_major_le_def\<close>)
qed

lemma win_cell_found:
  assumes "wins_at b s r c"
  shows "\<exists>r0 c0. find (\<lambda>(r, c). wins_at b s r c) cells3 = Some (r0, c0)"
proof -
  from assms have "(r, c) \<in> set cells3" by (simp add: wins_at_def in_grid_cells3)
  with assms have "find (\<lambda>(r, c). wins_at b s r c) cells3 \<noteq> None"
    by (auto simp: find_None_iff)
  then show ?thesis by auto
qed

lemma is_board_full_wf:
  assumes "wf_board b"
  shows "is_board_full b \<longleftrightarrow> filter (\<lambda>(r, c). at b r c = None) cells3 = []"
proof -
  from assms obtain a0 a1 a2 a3 a4 a5 a6 a7 a8
    where b: "b = [[a0, a1, a2], [a3, a4, a5], [a6, a7, a8]]"
    by (rule wf_boardE)
  show ?thesis
    by (simp add: b is_board_full_def cells3_explicit at_def)
qed

lemma in_set_not_Nil: "x \<in> set xs \<Longrightarrow> xs \<noteq> []"
  by auto

lemma at_put_same:
  assumes "wf_board b" "in_grid r c"
  shows "at (put b r c v) r c = v"
proof -
  from assms have "nat r < length b" "nat c < length (b ! nat r)"
    by (auto simp: in_grid_def wf_board_def list_all_length)
  then show ?thesis by (simp add: at_def put_def)
qed

lemma at_put_other:
  assumes "wf_board b" "in_grid r c" "in_grid r' c'" "(r', c') \<noteq> (r, c)"
  shows "at (put b r c v) r' c' = at b r' c'"
proof (cases "r' = r")
  case True
  with assms have "nat c' \<noteq> nat c" "nat r < length b" by (auto simp: in_grid_def wf_board_def)
  with True show ?thesis by (simp add: at_def put_def)
next
  case False
  with assms have "nat r' \<noteq> nat r" by (auto simp: in_grid_def)
  then show ?thesis by (simp add: at_def put_def)
qed

lemma choice_in_set: "xs \<noteq> [] \<Longrightarrow> choice k xs \<in> set xs"
  by (simp add: choice_def)

lemma wins_at_empty: "wins_at b s r c \<Longrightarrow> in_grid r c \<and> get_cell b r c = Inr None"
  by (simp add: wins_at_def)

lemma find_wins_at_empty:
  "find (\<lambda>(r, c). wins_at b s r c) cells3 = Some (r0, c0) \<Longrightarrow>
     in_grid r0 c0 \<and> get_cell b r0 c0 = Inr None"
  by (auto simp: find_Some_iff dest: wins_at_empty)

lemma next_turn_X [simp]: "next_turn ''X'' = ''O''" by (simp add: next_turn_def)

lemma next_turn_O [simp]: "next_turn ''O'' = ''X''" by (simp add: next_turn_def)

lemma replay_turn:
  assumes "t = ''X'' \<or> t = ''O''"
  shows "replay b t ms = Inr (b', t') \<Longrightarrow> t' = (if even (length ms) then t else next_turn t)"
  using assms
proof (induction ms arbitrary: b t)
  case Nil
  then show ?case by simp
next
  case (Cons m ms)
  from Cons.prems(1) obtain b1 where
    a: "apply_move b (m_row m) (m_col m) (m_player m) = Inr b1"
    and r: "replay b1 (next_turn t) ms = Inr (b', t')"
    by (cases "apply_move b (m_row m) (m_col m) (m_player m)") auto
  from Cons.prems(2) have nt: "next_turn t = ''X'' \<or> next_turn t = ''O''" by auto
  from Cons.IH [OF r nt] Cons.prems(2) show ?case by auto
qed

lemma replay_returns:
  assumes "wf_board b" "list_all (\<lambda>m. in_grid (m_row m) (m_col m)) ms"
  shows "\<exists>b' t'. replay b t ms = Inr (b', t')"
  using assms
proof (induction ms arbitrary: b t)
  case Nil
  show ?case by simp
next
  case (Cons m ms)
  from Cons.prems have g: "in_grid (m_row m) (m_col m)" by simp
  from Cons.prems have rest: "list_all (\<lambda>m. in_grid (m_row m) (m_col m)) ms" by simp
  have wf: "wf_board (put b (m_row m) (m_col m) (Some (m_player m)))"
    by (rule wf_board_put [OF Cons.prems(1)])
  from Cons.IH [OF wf rest] show ?case
    by (simp add: apply_move_wf [OF Cons.prems(1) g])
qed

lemma wf_empty_board: "wf_board empty_board"
  by (simp add: wf_board_def empty_board_def range3_def)

lemma copy_rows_spec:
  assumes "copy_rows h refs = (refs', h')" and "list_all (\<lambda>a. a < next_addr h) refs"
  shows "length refs' = length refs
     \<and> distinct refs'
     \<and> list_all (\<lambda>a. next_addr h \<le> a) refs'
     \<and> (\<forall>a<next_addr h. objs h' a = objs h a)
     \<and> map (objs h') refs' = map (objs h) refs"
  using assms
proof (induction refs arbitrary: h refs' h')
  case Nil
  then show ?case by simp
next
  case (Cons a rest)
  let ?h1 = "h\<lparr>objs := (objs h)(next_addr h := objs h a), next_addr := Suc (next_addr h)\<rparr>"
  obtain rest' h2 where rec: "copy_rows ?h1 rest = (rest', h2)"
    by (cases "copy_rows ?h1 rest")
  from Cons.prems(1) rec have out: "refs' = next_addr h # rest'" "h' = h2"
    by (simp_all add: alloc_def copy_def)
  from Cons.prems(2) have a: "a < next_addr h" and old: "list_all (\<lambda>a. a < next_addr h) rest"
    by simp_all
  from old have "list_all (\<lambda>a. a < next_addr ?h1) rest"
    by (simp add: list_all_iff less_Suc_eq)
  note IH = Cons.IH [OF rec this]
  have n1: "next_addr ?h1 = Suc (next_addr h)" by simp
  from IH [unfolded n1]
  have r1: "length rest' = length rest"
    and r2: "distinct rest'"
    and r3: "list_all (\<lambda>x. Suc (next_addr h) \<le> x) rest'"
    and r4: "\<forall>x<Suc (next_addr h). objs h2 x = objs ?h1 x"
    and r5: "map (objs h2) rest' = map (objs ?h1) rest"
    by blast+
  from r1 have "length refs' = length (a # rest)" by (simp add: out)
  moreover from r2 r3 have "distinct refs'" by (auto simp: out list_all_iff)
  moreover from r3 have "list_all (\<lambda>x. next_addr h \<le> x) refs'"
    by (auto simp: out list_all_iff)
  moreover from r4 have "\<forall>x<next_addr h. objs h' x = objs h x"
    by (simp add: out)
  moreover have "map (objs h') refs' = map (objs h) (a # rest)"
  proof -
    from r4 have "objs h2 (next_addr h) = objs h a" by simp
    moreover from old have "map (objs ?h1) rest = map (objs h) rest"
      by (auto simp: list_all_iff)
    ultimately show ?thesis using r5 by (simp add: out)
  qed
  ultimately show ?case by blast
qed

lemma map_upd_distinct:
  assumes "distinct refs" "j < length refs"
  shows "map (f(refs ! j := v)) refs = (map f refs)[j := v]"
  using assms
  by (auto simp: list_eq_iff_nth_eq nth_list_update nth_eq_iff_index_eq)

lemma validate_move_occupied:
  assumes "wf_board b" "in_grid r c" "at b r c = Some s"
  shows "validate_move b r c = Inr False"
  using get_cell_wf [OF assms(1,2)] assms(2,3)
  by (simp add: validate_move_def in_grid_def)

section \<open>The outcome evaluator\<close>

text \<open>
  C1: on every board \<^verbatim>\<open>check_winner\<close> returns (it raises nothing); it returns \<^verbatim>\<open>None\<close>
  exactly when none of the eight lines is complete, and it returns the symbol \<open>s\<close>
  exactly when the first complete line, in the order rows top to bottom, columns left
  to right, main diagonal, anti-diagonal, holds \<open>s\<close> in its three cells. The code scans
  row 0, column 0, row 1, column 1, row 2, column 2 and then the diagonals; a complete
  row and a complete column share a cell, so the symbol returned is the same.
\<close>

theorem check_winner_first_line:
  assumes "wf_board b"
  shows "(\<exists>w. check_winner b = Inr w)
     \<and> (check_winner b = Inr None \<longleftrightarrow> (\<forall>i<8. \<not> complete (spec_lines b ! i)))
     \<and> (\<forall>s. check_winner b = Inr (Some s) \<longleftrightarrow>
          (\<exists>i<8. spec_lines b ! i = [Some s, Some s, Some s]
                \<and> (\<forall>j<i. \<not> complete (spec_lines b ! j))))"
proof -
  have len: "length (spec_lines b) = 8" by (simp add: spec_lines_def)
  show ?thesis
    unfolding check_winner_wf [OF assms] sum.inject
    using first_complete_None_iff [of "spec_lines b"] first_complete_Some_iff [of "spec_lines b"]
    by (simp only: len) blast
qed

theorem check_winner_first_line_witness:
  "wf_board board_two_lines
   \<and> (\<exists>i<8. spec_lines board_two_lines ! i = [Some ''X'', Some ''X'', Some ''X'']
         \<and> (\<forall>j<i. \<not> complete (spec_lines board_two_lines ! j)))
   \<and> check_winner board_two_lines = Inr (Some ''X'')"
proof -
  have wf: "wf_board board_two_lines" by code_simp
  have l: "spec_lines board_two_lines ! 1 = [Some ''X'', Some ''X'', Some ''X'']"
    and n: "\<not> complete (spec_lines board_two_lines ! 0)" by code_simp+
  have first: "\<exists>i<8. spec_lines board_two_lines ! i = [Some ''X'', Some ''X'', Some ''X'']
         \<and> (\<forall>j<i. \<not> complete (spec_lines board_two_lines ! j))"
  proof (intro exI conjI allI impI)
    show "(1::nat) < 8" by simp
    show "spec_lines board_two_lines ! 1 = [Some ''X'', Some ''X'', Some ''X'']" by (rule l)
    fix j :: nat assume "j < 1"
    then have "j = 0" by simp
    with n show "\<not> complete (spec_lines board_two_lines ! j)" by simp
  qed
  from check_winner_first_line [OF wf] first wf show ?thesis by blast
qed

section \<open>The AI move selector\<close>

text \<open>
  C2: on every board where some empty cell gives \<open>ai\<close> an immediate win,
  \<^verbatim>\<open>best_ai_move\<close> returns such a cell, and it is the first one in row-major order,
  whatever the random draw \<open>k\<close> and whether or not a blocking cell exists as well.
\<close>

theorem best_ai_move_takes_first_win:
  assumes "wf_board b" and "wins_at b ai r c"
  shows "\<exists>r0 c0. best_ai_move k b ai us = Inr (r0, c0) \<and> wins_at b ai r0 c0
           \<and> (\<forall>r' c'. wins_at b ai r' c' \<longrightarrow> row_major_le (r0, c0) (r', c'))"
proof -
  from win_cell_found [OF assms(2)] obtain r0 c0
    where f: "find (\<lambda>(r, c). wins_at b ai r c) cells3 = Some (r0, c0)" by blast
  have "best_ai_move k b ai us = Inr (r0, c0)"
    by (simp add: best_ai_move_wf [OF assms(1)] f)
  with first_win_cell [OF f] show ?thesis by blast
qed

theorem best_ai_move_takes_first_win_witness:
  "wf_board board_scenario \<and> wins_at board_scenario ''O'' 1 2 \<and> wins_at board_scenario ''X'' 0 2
   \<and> (\<exists>r0 c0. best_ai_move 0 board_scenario ''O'' ''X'' = Inr (r0, c0) \<and> wins_at board_scenario ''O'' r0 c0
         \<and> row_major_le (r0, c0) (1, 2))"
proof -
  have wf: "wf_board board_scenario" and w: "wins_at board_scenario ''O'' 1 2"
    and t: "wins_at board_scenario ''X'' 0 2" by code_simp+
  from best_ai_move_takes_first_win [OF wf w, of 0 "''X''"] wf w t show ?thesis by blast
qed

text \<open>
  C3: on every board where no empty cell gives \<open>ai\<close> an immediate win but some empty
  cell gives the opponent \<open>us\<close> one, \<^verbatim>\<open>best_ai_move\<close> returns such a blocking cell, and
  it is the first one in row-major order.
\<close>

theorem best_ai_move_blocks_first_threat:
  assumes "wf_board b" and "\<forall>r c. \<not> wins_at b ai r c" and "wins_at b us r c"
  shows "\<exists>r0 c0. best_ai_move k b ai us = Inr (r0, c0) \<and> wins_at b us r0 c0
           \<and> (\<forall>r' c'. wins_at b us r' c' \<longrightarrow> row_major_le (r0, c0) (r', c'))"
proof -
  from assms(2) have n: "find (\<lambda>(r, c). wins_at b ai r c) cells3 = None"
    by (auto simp: find_None_iff)
  from win_cell_found [OF assms(3)] obtain r0 c0
    where f: "find (\<lambda>(r, c). wins_at b us r c) cells3 = Some (r0, c0)" by blast
  have "best_ai_move k b ai us = Inr (r0, c0)"
    by (simp add: best_ai_move_wf [OF assms(1)] n f)
  with first_win_cell [OF f] show ?thesis by blast
qed

theorem best_ai_move_blocks_first_threat_witness:
  "wf_board board_threat \<and> (\<forall>r c. \<not> wins_at board_threat ''O'' r c)
   \<and> wins_at board_threat ''X'' 0 2
   \<and> (\<exists>r0 c0. best_ai_move 0 board_threat ''O'' ''X'' = Inr (r0, c0)
         \<and> wins_at board_threat ''X'' r0 c0 \<and> row_major_le (r0, c0) (0, 2))"
proof -
  have wf: "wf_board board_threat" and t: "wins_at board_threat ''X'' 0 2" by code_simp+
  have "list_all (\<lambda>(r, c). \<not> wins_at board_threat ''O'' r c) cells3" by code_simp
  then have no: "\<forall>r c. \<not> wins_at board_threat ''O'' r c"
    by (auto simp: list_all_iff wins_at_def in_grid_cells3)
  from best_ai_move_blocks_first_threat [OF wf no t, of 0] wf no t show ?thesis by blast
qed

text \<open>
  C4, as the specification states it, fails on the scenario position: with \<^verbatim>\<open>O\<close> to move,
  the cell \<open>(1, 2)\<close> completes row 1, so the AI does have a winning move there, and
  \<open>(1, 2)\<close> is not a blocking cell, since \<^verbatim>\<open>X\<close> placed there completes no line.
\<close>

theorem scenario_has_win_not_block:
  "wins_at board_scenario ''O'' 1 2 \<and> \<not> wins_at board_scenario ''X'' 1 2"
  by code_simp

text \<open>
  C4, amended: on the scenario position with the AI playing \<^verbatim>\<open>O\<close> against \<^verbatim>\<open>X\<close>, the
  cell \<open>(1, 2)\<close> is an immediate win for the AI and not a blocking cell, the opponent's
  threat is at \<open>(0, 2)\<close>, and \<^verbatim>\<open>best_ai_move\<close> returns \<open>(1, 2)\<close> for every random
  draw: the move is chosen by the win-now rule, not at random.
\<close>

theorem scenario_move_is_win:
  "wins_at board_scenario ''O'' 1 2 \<and> \<not> wins_at board_scenario ''X'' 1 2 \<and> wins_at board_scenario ''X'' 0 2
   \<and> (\<forall>k. best_ai_move k board_scenario ''O'' ''X'' = Inr (1, 2))"
proof -
  have "wins_at board_scenario ''O'' 1 2" "\<not> wins_at board_scenario ''X'' 1 2" "wins_at board_scenario ''X'' 0 2"
    by code_simp+
  moreover have "best_ai_move k board_scenario ''O'' ''X'' = Inr (1, 2)" for k
    by (simp add: board_scenario_def best_ai_move_def cells3_explicit get_cell_def set_cell_def
          py_get_def py_set_def py_index_def check_winner_explicit copy_def)
  ultimately show ?thesis by blast
qed

text \<open>
  C7: on a board, \<^verbatim>\<open>best_ai_move\<close> raises \<^verbatim>\<open>Exception("No moves left")\<close> exactly when
  \<^verbatim>\<open>is_board_full\<close> holds, and it raises nothing else; on a board that is not full it
  returns the coordinates of a cell within the grid that is empty, in the fallback
  case (neither a winning nor a blocking cell) as in the other two.
\<close>

theorem best_ai_move_raises_iff_full:
  assumes "wf_board b"
  shows "(best_ai_move k b ai us = Inl (Exception ''No moves left'') \<longleftrightarrow> is_board_full b)
     \<and> ((\<exists>e. best_ai_move k b ai us = Inl e) \<longleftrightarrow> is_board_full b)
     \<and> (\<not> is_board_full b \<longrightarrow>
          (\<exists>r c. best_ai_move k b ai us = Inr (r, c) \<and> in_grid r c \<and> get_cell b r c = Inr None))"
proof -
  let ?empty = "filter (\<lambda>(r, c). at b r c = None) cells3"
  have full: "is_board_full b \<longleftrightarrow> ?empty = []" by (rule is_board_full_wf [OF assms])
  have cell_empty: "in_grid r c \<and> get_cell b r c = Inr None" if "(r, c) \<in> set ?empty" for r c
  proof -
    from that have g: "in_grid r c" and n: "at b r c = None"
      by (simp_all add: in_grid_cells3)
    with get_cell_wf [OF assms g] show ?thesis by simp
  qed
  show ?thesis
  proof (cases "find (\<lambda>(r, c). wins_at b ai r c) cells3")
    case (Some p)
    obtain r0 c0 where p: "p = (r0, c0)" by (cases p)
    from Some have res: "best_ai_move k b ai us = Inr (r0, c0)"
      by (simp add: best_ai_move_wf [OF assms] p)
    from Some have e: "in_grid r0 c0 \<and> get_cell b r0 c0 = Inr None"
      unfolding p by (rule find_wins_at_empty)
    with get_cell_wf [OF assms, of r0 c0] have "(r0, c0) \<in> set ?empty"
      by (simp add: in_grid_cells3)
    then have "?empty \<noteq> []" by (rule in_set_not_Nil)
    then have "\<not> is_board_full b" by (simp only: full not_False_eq_True)
    with res e show ?thesis by simp
  next
    case win: None
    show ?thesis
    proof (cases "find (\<lambda>(r, c). wins_at b us r c) cells3")
      case (Some p)
      obtain r0 c0 where p: "p = (r0, c0)" by (cases p)
      from Some win have res: "best_ai_move k b ai us = Inr (r0, c0)"
        by (simp add: best_ai_move_wf [OF assms] p)
      from Some have e: "in_grid r0 c0 \<and> get_cell b r0 c0 = Inr None"
        unfolding p by (rule find_wins_at_empty)
      with get_cell_wf [OF assms, of r0 c0] have "(r0, c0) \<in> set ?empty"
        by (simp add: in_grid_cells3)
      then have "?empty \<noteq> []" by (rule in_set_not_Nil)
    then have "\<not> is_board_full b" by (simp only: full not_False_eq_True)
      with res e show ?thesis by simp
    next
      case block: None
      show ?thesis
      proof (cases "?empty = []")
        case True
        with win block have "best_ai_move k b ai us = Inl (Exception ''No moves left'')"
          by (simp add: best_ai_move_wf [OF assms])
        with True full show ?thesis by simp
      next
        case False
        with win block have res: "best_ai_move k b ai us = Inr (choice k ?empty)"
          by (simp add: best_ai_move_wf [OF assms])
        obtain r0 c0 where p: "choice k ?empty = (r0, c0)" by (cases "choice k ?empty")
        from choice_in_set [OF False, of k] have "(r0, c0) \<in> set ?empty" by (simp only: p)
        from cell_empty [OF this] res False full show ?thesis by (simp add: p)
      qed
    qed
  qed
qed

theorem best_ai_move_raises_iff_full_witness:
  "wf_board board_draw \<and> is_board_full board_draw
   \<and> best_ai_move 0 board_draw ''O'' ''X'' = Inl (Exception ''No moves left'')
   \<and> wf_board empty_board \<and> \<not> is_board_full empty_board
   \<and> (\<exists>r c. best_ai_move 4 empty_board ''O'' ''X'' = Inr (r, c) \<and> in_grid r c
         \<and> get_cell empty_board r c = Inr None)"
proof -
  have wf1: "wf_board board_draw" and f1: "is_board_full board_draw" by code_simp+
  have wf2: "wf_board empty_board" and f2: "\<not> is_board_full empty_board" by code_simp+
  from best_ai_move_raises_iff_full [OF wf1, of 0 "''O''" "''X''"]
    best_ai_move_raises_iff_full [OF wf2, of 4 "''O''" "''X''"] wf1 f1 wf2 f2
  show ?thesis by simp
qed

section \<open>The move validator\<close>

text \<open>
  C5: on a board, \<^verbatim>\<open>validate_move\<close> raises nothing and returns true exactly when
  \<open>0 \<le> row < 3\<close>, \<open>0 \<le> col < 3\<close> and the cell is unoccupied. For coordinates outside
  the grid it returns false whatever the first argument is, since the bounds are tested
  before anything is read.
\<close>

theorem validate_move_iff:
  "(wf_board b \<longrightarrow> validate_move b row col = Inr (in_grid row col \<and> at b row col = None))
   \<and> (\<not> in_grid row col \<longrightarrow> validate_move b row col = Inr False)"
proof (intro conjI impI)
  assume wf: "wf_board b"
  show "validate_move b row col = Inr (in_grid row col \<and> at b row col = None)"
  proof (cases "in_grid row col")
    case True
    from get_cell_wf [OF wf True] True show ?thesis
      by (simp add: validate_move_def in_grid_def)
  next
    case False
    then show ?thesis by (auto simp: validate_move_def in_grid_def)
  qed
next
  assume "\<not> in_grid row col"
  then show "validate_move b row col = Inr False"
    by (auto simp: validate_move_def in_grid_def)
qed

theorem validate_move_iff_witness:
  "wf_board board_scenario \<and> validate_move board_scenario 2 1 = Inr True
   \<and> validate_move board_scenario 0 0 = Inr False
   \<and> \<not> in_grid 3 0 \<and> validate_move board_scenario 3 0 = Inr False
   \<and> \<not> in_grid 0 (- 1) \<and> validate_move [] 0 (- 1) = Inr False"
proof -
  have wf: "wf_board board_scenario" by code_simp
  have o1: "\<not> in_grid 3 0" and o2: "\<not> in_grid 0 (- 1)" by (simp_all add: in_grid_def)
  have e: "in_grid 2 1 \<and> at board_scenario 2 1 = None" "\<not> (in_grid 0 0 \<and> at board_scenario 0 0 = None)"
    by (simp_all add: in_grid_def at_def board_scenario_def)
  from validate_move_iff [of board_scenario 2 1] validate_move_iff [of board_scenario 0 0]
    validate_move_iff [of board_scenario 3 0] validate_move_iff [of "[]" 0 "- 1"] wf o1 o2 e
  show ?thesis by simp
qed

section \<open>Applying a move\<close>

text \<open>
  C6: for a board whose rows are objects of the store and a cell \<open>(r, c)\<close> within the
  grid, \<^verbatim>\<open>apply_move\<close> returns a board made of newly allocated rows that holds \<open>s\<close>
  at \<open>(r, c)\<close> and agrees with the input at every other cell; every object that
  existed before the call is unchanged, so the input board reads as before; and
  \<^verbatim>\<open>validate_move\<close> on the result at \<open>(r, c)\<close> is false. The run on the store and
  \<^verbatim>\<open>apply_move\<close> on board values give the same board.
\<close>

theorem apply_move_frame:
  assumes "wf_board (read_board h board)" and "list_all (\<lambda>a. a < next_addr h) board"
    and "in_grid r c"
  shows "\<exists>new_board h'. apply_move_heap h board r c s = Inr (new_board, h')
     \<and> apply_move (read_board h board) r c s = Inr (read_board h' new_board)
     \<and> at (read_board h' new_board) r c = Some s
     \<and> (\<forall>r' c'. in_grid r' c' \<and> (r', c') \<noteq> (r, c) \<longrightarrow>
           at (read_board h' new_board) r' c' = at (read_board h board) r' c')
     \<and> (\<forall>a<next_addr h. objs h' a = objs h a)
     \<and> read_board h' board = read_board h board
     \<and> list_all (\<lambda>a. next_addr h \<le> a) new_board
     \<and> validate_move (read_board h' new_board) r c = Inr False"
proof -
  let ?B = "read_board h board"
  obtain nb h1 where cr: "copy_rows h board = (nb, h1)" by (cases "copy_rows h board")
  from copy_rows_spec [OF cr assms(2)]
  have lnb0: "length nb = length board" and dist: "distinct nb"
    and fresh: "list_all (\<lambda>x. next_addr h \<le> x) nb"
    and old: "\<forall>a<next_addr h. objs h1 a = objs h a"
    and same: "map (objs h1) nb = map (objs h) board"
    by blast+
  from assms(1) have len: "length board = 3" by (simp add: wf_board_def read_board_def)
  from assms(3) have r3: "nat r < 3" and r0: "0 \<le> r" "r < 3" by (auto simp: in_grid_def)
  from lnb0 len have lnb: "length nb = 3" by simp
  define a where "a = nb ! nat r"
  from fresh lnb r3 have a_new: "next_addr h \<le> a" by (simp add: a_def list_all_length)
  have get: "py_get nb r = Inr a"
    using r0 lnb by (simp add: py_get_def py_index_nonneg a_def)
  have row: "objs h1 a = ?B ! nat r"
    using same r3 lnb len unfolding a_def read_board_def
    by (metis nth_map)
  from assms(1) r3 have lrow: "length (?B ! nat r) = 3" by (rule wf_board_nth)
  from assms(3) have c0: "0 \<le> c" "c < 3" by (simp_all add: in_grid_def)
  have set: "py_set (objs h1 a) c (Some s) = Inr ((?B ! nat r)[nat c := Some s])"
    using c0 lrow by (simp add: row py_set_def py_index_nonneg)
  define h' where "h' = h1\<lparr>objs := (objs h1)(a := (?B ! nat r)[nat c := Some s])\<rparr>"
  have res: "apply_move_heap h board r c s = Inr (nb, h')"
    by (simp add: apply_move_heap_def cr get set h'_def)
  have new: "read_board h' nb = put ?B r c (Some s)"
  proof -
    have "map ((objs h1)(nb ! nat r := (?B ! nat r)[nat c := Some s])) nb
            = (map (objs h1) nb)[nat r := (?B ! nat r)[nat c := Some s]]"
      using dist r3 lnb by (simp add: map_upd_distinct)
    then show ?thesis
      by (simp add: read_board_def h'_def a_def same put_def)
  qed
  have am: "apply_move ?B r c s = Inr (read_board h' nb)"
    by (simp add: new apply_move_wf [OF assms(1,3)])
  have at_same: "at (read_board h' nb) r c = Some s"
    by (simp add: new at_put_same [OF assms(1,3)])
  have at_other: "at (read_board h' nb) r' c' = at ?B r' c'"
    if "in_grid r' c' \<and> (r', c') \<noteq> (r, c)" for r' c'
    using that by (simp add: new at_put_other [OF assms(1,3)])
  have keep: "\<forall>x<next_addr h. objs h' x = objs h x"
    using old a_new by (auto simp: h'_def)
  have input: "read_board h' board = ?B"
    using keep assms(2) by (auto simp: read_board_def list_all_iff)
  have "wf_board (read_board h' nb)"
    unfolding new by (rule wf_board_put [OF assms(1)])
  from validate_move_occupied [OF this assms(3) at_same]
  have vm: "validate_move (read_board h' nb) r c = Inr False" .
  from res am at_same at_other keep input fresh vm show ?thesis by blast
qed

theorem apply_move_frame_witness:
  "wf_board (read_board heap0 [0, 1, 2]) \<and> list_all (\<lambda>a. a < next_addr heap0) [0, 1, 2]
   \<and> in_grid 0 2
   \<and> (\<exists>new_board h'. apply_move_heap heap0 [0, 1, 2] 0 2 ''X'' = Inr (new_board, h')
         \<and> at (read_board h' new_board) 0 2 = Some ''X''
         \<and> read_board h' [0, 1, 2] = read_board heap0 [0, 1, 2]
         \<and> validate_move (read_board h' new_board) 0 2 = Inr False)"
proof -
  have wf: "wf_board (read_board heap0 [0, 1, 2])" by (simp add: wf_board_def read_board_def heap0_def)
  have al: "list_all (\<lambda>a. a < next_addr heap0) [0, 1, 2]" by (simp add: heap0_def)
  have g: "in_grid 0 2" by (simp add: in_grid_def)
  from apply_move_frame [OF wf al g, of "''X''"] wf al g show ?thesis by blast
qed

text \<open>
  C9: for a board and \<open>row\<close>, \<open>col\<close> in \<open>{-3, -2, -1}\<close>, \<^verbatim>\<open>apply_move\<close> raises nothing:
  the negative subscripts count from the end, so the result is that of
  \<^verbatim>\<open>apply_move\<close> at \<open>(row + 3, col + 3)\<close> and holds \<open>s\<close> there, although
  \<^verbatim>\<open>validate_move\<close> rejects \<open>(row, col)\<close>.
\<close>

theorem apply_move_negative_wraps:
  assumes "wf_board b" and "- 3 \<le> row" "row < 0" and "- 3 \<le> col" "col < 0"
  shows "apply_move b row col s = apply_move b (row + 3) (col + 3) s
     \<and> (\<exists>b'. apply_move b row col s = Inr b' \<and> get_cell b' (row + 3) (col + 3) = Inr (Some s))
     \<and> validate_move b row col = Inr False"
proof -
  from assms have g: "in_grid (row + 3) (col + 3)" by (simp add: in_grid_def)
  from assms(1) g have len: "length b = 3" "length (b ! nat (row + 3)) = 3"
    by (auto simp: wf_board_def in_grid_def list_all_length)
  from assms len have neg: "apply_move b row col s = Inr (put b (row + 3) (col + 3) (Some s))"
    by (simp add: apply_move_def set_cell_def py_set_def py_index_neg put_def)
  have pos: "apply_move b (row + 3) (col + 3) s = Inr (put b (row + 3) (col + 3) (Some s))"
    by (rule apply_move_wf [OF assms(1) g])
  have "get_cell (put b (row + 3) (col + 3) (Some s)) (row + 3) (col + 3)
          = Inr (at (put b (row + 3) (col + 3) (Some s)) (row + 3) (col + 3))"
    by (rule get_cell_wf [OF wf_board_put [OF assms(1)] g])
  also have "at (put b (row + 3) (col + 3) (Some s)) (row + 3) (col + 3) = Some s"
    by (rule at_put_same [OF assms(1) g])
  finally have got: "get_cell (put b (row + 3) (col + 3) (Some s)) (row + 3) (col + 3) = Inr (Some s)" .
  from assms have "validate_move b row col = Inr False"
    by (simp add: validate_move_def)
  with neg pos got show ?thesis by simp
qed

theorem apply_move_negative_wraps_witness:
  "wf_board board_scenario \<and> - 3 \<le> (- 1 :: int) \<and> (- 1 :: int) < 0 \<and> - 3 \<le> (- 3 :: int) \<and> (- 3 :: int) < 0
   \<and> apply_move board_scenario (- 1) (- 3) ''X'' = apply_move board_scenario 2 0 ''X''
   \<and> (\<exists>b'. apply_move board_scenario (- 1) (- 3) ''X'' = Inr b' \<and> get_cell b' 2 0 = Inr (Some ''X''))
   \<and> validate_move board_scenario (- 1) (- 3) = Inr False"
proof -
  have wf: "wf_board board_scenario" by code_simp
  note w = apply_move_negative_wraps [OF wf, of "- 1" "- 3" "''X''", simplified]
  from w have a: "apply_move board_scenario (- 1) (- 3) ''X'' = apply_move board_scenario 2 0 ''X''"
    and b: "\<exists>b'. apply_move board_scenario (- 1) (- 3) ''X'' = Inr b' \<and> get_cell b' 2 0 = Inr (Some ''X'')"
    and c: "validate_move board_scenario (- 1) (- 3) = Inr False"
    by blast+
  show ?thesis by (intro conjI) (rule wf a b c | simp)+
qed

section \<open>Turn alternation\<close>

text \<open>
  C8: \<^verbatim>\<open>next_turn\<close> maps \<^verbatim>\<open>"X"\<close> to \<^verbatim>\<open>"O"\<close> and \<^verbatim>\<open>"O"\<close> to \<^verbatim>\<open>"X"\<close>. Replaying a move
  list from the empty board with the turn starting at \<^verbatim>\<open>"X"\<close> returns whenever the
  stored coordinates are within the grid, and whenever it returns the turn is \<^verbatim>\<open>"X"\<close>
  for a list of even length and \<^verbatim>\<open>"O"\<close> for one of odd length.
\<close>

theorem replay_turn_parity:
  "next_turn ''X'' = ''O'' \<and> next_turn ''O'' = ''X''
   \<and> (list_all (\<lambda>m. in_grid (m_row m) (m_col m)) moves \<longrightarrow>
        (\<exists>board. rebuild moves = Inr (board, if even (length moves) then ''X'' else ''O'')))
   \<and> (\<forall>board turn. rebuild moves = Inr (board, turn) \<longrightarrow>
        turn = (if even (length moves) then ''X'' else ''O''))"
proof -
  have part: "turn = (if even (length moves) then ''X'' else ''O'')"
    if "rebuild moves = Inr (board, turn)" for board turn
    using replay_turn [of "''X''" empty_board moves board turn] that
    by (simp add: rebuild_def)
  have "\<exists>board. rebuild moves = Inr (board, if even (length moves) then ''X'' else ''O'')"
    if "list_all (\<lambda>m. in_grid (m_row m) (m_col m)) moves"
  proof -
    from replay_returns [OF wf_empty_board that, of "''X''"] obtain board turn
      where r: "rebuild moves = Inr (board, turn)" by (auto simp: rebuild_def)
    from part [OF r] r show ?thesis by blast
  qed
  with part show ?thesis by simp
qed

theorem replay_turn_parity_witness:
  "list_all (\<lambda>m. in_grid (m_row m) (m_col m)) moves3 \<and> length moves3 = 3
   \<and> (\<exists>board. rebuild moves3 = Inr (board, ''O''))"
proof -
  have g: "list_all (\<lambda>m. in_grid (m_row m) (m_col m)) moves3" by code_simp
  have l: "length moves3 = 3" by (simp add: moves3_def)
  from replay_turn_parity [of moves3] g l show ?thesis by simp
qed

text \<open>
  C10: \<^verbatim>\<open>next_turn\<close> is defined on every string and answers \<^verbatim>\<open>"X"\<close> for every input
  other than exactly \<^verbatim>\<open>"X"\<close>; in particular for \<^verbatim>\<open>"O"\<close>, \<^verbatim>\<open>"Z"\<close>, \<^verbatim>\<open>"x"\<close> and the empty
  string. No input is an error.
\<close>

theorem next_turn_other_is_X:
  "(current \<noteq> ''X'' \<longrightarrow> next_turn current = ''X'')
   \<and> next_turn ''O'' = ''X'' \<and> next_turn ''Z'' = ''X''
   \<and> next_turn ''x'' = ''X'' \<and> next_turn [] = ''X''"
  by (simp add: next_turn_def)

theorem next_turn_other_is_X_witness:
  "''Zed'' \<noteq> ''X'' \<and> next_turn ''Zed'' = ''X''"
  using next_turn_other_is_X [of "''Zed''"] by simp

end
